theory Spec2Isabelle
  imports Main "HOL-Library.Sublist"
begin

section \<open>Rule handler: filter parsing, predicate evaluation and action dispatch\<close>

text \<open>
  A shallow embedding of \<^verbatim>\<open>packages/rule-handler/src/rule.ts\<close>.
  JavaScript strings are modelled as \<^typ>\<open>string\<close>: a list of code units, restricted to
  the code units below 256. An optional field (\<^verbatim>\<open>x?: string\<close>) is a \<^typ>\<open>string option\<close>,
  \<open>None\<close> standing for \<^verbatim>\<open>undefined\<close>.
\<close>

subsection \<open>Data model\<close>

datatype RuleActionType = AddLabel | Archive | MarkAsRead | SendNotification

record RuleAction =
  type :: RuleActionType
  params :: "string list"

record Rule =
  id_rule :: string
  userId :: string
  name :: string
  filter_rule :: string
  actions :: "RuleAction list"
  description :: "string option"
  enabled :: bool
  createdAt :: int
  updatedAt :: int

record SearchFilter =
  subscriptionFilter :: "string option"

text \<open>
  Modelled from the spec: the type \<^verbatim>\<open>PubSubData\<close> is declared in \<^verbatim>\<open>./index\<close>, which is
  not part of the sources at hand. The code reads two fields of it, \<^verbatim>\<open>id\<close> and
  \<^verbatim>\<open>subscription\<close>; the spec gives both as optional strings.
\<close>

record PubSubData =
  id_data :: "string option"
  subscription :: "string option"

text \<open>
  JavaScript truthiness of an optional string, as tested by \<^verbatim>\<open>if (x)\<close> and \<^verbatim>\<open>!x\<close>:
  \<^verbatim>\<open>undefined\<close> and the empty string are falsy.
\<close>

fun truthy :: "string option \<Rightarrow> bool" where
  "truthy None = False"
| "truthy (Some s) = (s \<noteq> [])"

subsection \<open>The query parser of the library, as a parameter\<close>

text \<open>
  \<^verbatim>\<open>parse\<close> comes from the package \<^verbatim>\<open>search-query-parser\<close>, which is not part of this
  repository. It is a parameter of the model. Its result carries an optional list of
  offsets; an offset is either a keyword offset (it has the property \<^verbatim>\<open>keyword\<close>, and an
  optional \<^verbatim>\<open>value\<close>) or a text offset.
\<close>

datatype SearchParserOffset =
    KeyWordOffset string "string option" nat nat
  | TextOffset string nat nat

record SearchParserOptions =
  keywords_opt :: "string list"
  tokenize :: bool

record SearchParserResult =
  offsets :: "SearchParserOffset list option"

type_synonym parser = "string \<Rightarrow> SearchParserOptions \<Rightarrow> SearchParserResult"

subsection \<open>FilterParser\<close>

definition isWordChar :: "char \<Rightarrow> bool" where
  "isWordChar c = (c \<in> set ''abcdefghijklmnopqrstuvwxyzABCDEFGHIJKLMNOPQRSTUVWXYZ0123456789_'')"

text \<open>The class \<^verbatim>\<open>\s\<close> on code units below 256: tab, LF, VT, FF, CR, space, no-break space.\<close>

definition isSpace :: "char \<Rightarrow> bool" where
  "isSpace c = (c \<in> set [CHR 0x09, CHR 0x0A, CHR 0x0B, CHR 0x0C, CHR 0x0D, CHR 0x20, CHR 0xA0])"

text \<open>
  \<^verbatim>\<open>filter.replace(/\W\s":/g, '')\<close>. The pattern is a sequence of four items, not a
  character class: one non-word character, one whitespace character, a double quote and
  a colon. Every non-overlapping occurrence, found from the left, is deleted.
\<close>

fun replace_filter :: "string \<Rightarrow> string" where
  "replace_filter (a # b # c # d # rest) =
     (if \<not> isWordChar a \<and> isSpace b \<and> c = CHR 0x22 \<and> d = CHR '':''
      then replace_filter rest
      else a # replace_filter (b # c # d # rest))"
| "replace_filter s = s"

text \<open>
  One round of the loop over the keyword offsets: the \<^verbatim>\<open>switch\<close> has the single case
  \<^verbatim>\<open>'subscription'\<close>, which assigns \<^verbatim>\<open>keyword.value\<close>.
\<close>

fun captureKeyword :: "SearchFilter \<Rightarrow> SearchParserOffset \<Rightarrow> SearchFilter" where
  "captureKeyword result (KeyWordOffset k v s e) =
     (if k = ''subscription'' then result\<lparr>subscriptionFilter := v\<rparr> else result)"
| "captureKeyword result (TextOffset t s e) = result"

fun hasKeyword :: "SearchParserOffset \<Rightarrow> bool" where
  "hasKeyword (KeyWordOffset k v s e) = True"
| "hasKeyword (TextOffset t s e) = False"

definition parseSearchFilter :: "parser \<Rightarrow> string \<Rightarrow> SearchFilter" where
  "parseSearchFilter parse f =
     (let searchFilter = (if f \<noteq> [] then Some (replace_filter f) else None);
          result = \<lparr>subscriptionFilter = None\<rparr>
      in if \<not> truthy searchFilter \<or> searchFilter = Some ''*'' then result
         else (case searchFilter of
                 None \<Rightarrow> result
               | Some sf \<Rightarrow>
                   (case offsets (parse sf \<lparr>keywords_opt = [''subscription''], tokenize = True\<rparr>) of
                      None \<Rightarrow> result
                    | Some offs \<Rightarrow> foldl captureKeyword result (filter hasKeyword offs))))"

subsection \<open>PredicateEvaluator\<close>

definition isValidSubscription :: "string \<Rightarrow> PubSubData \<Rightarrow> bool" where
  "isValidSubscription sf d =
     (if \<not> truthy (subscription d) then False
      else sf = ''*'' \<or> subscription d = Some sf)"

definition isValidData :: "parser \<Rightarrow> string \<Rightarrow> PubSubData \<Rightarrow> bool" where
  "isValidData parse f d =
     (case subscriptionFilter (parseSearchFilter parse f) of
        Some sf \<Rightarrow> (if sf \<noteq> [] then isValidSubscription sf d else True)
      | None \<Rightarrow> True)"

subsection \<open>External collaborators and effects\<close>

text \<open>
  The token issuer, the action APIs and the HTTP client are remote operations the code
  awaits. A run is modelled by the list of effects it has produced so far: the remote
  calls it has made, with their arguments, and the lines it has written with
  \<^verbatim>\<open>console.log\<close>. The request body of the rule query is a constant and is left out.
\<close>

datatype call =
    Call_getAuthToken string string
  | Call_axiosPost string string
  | Call_addLabels string string string "string list"
  | Call_archivePage string string string
  | Call_markPageAsRead string string string
  | Call_sendNotification string string string

datatype effect = Called call | ConsoleLog string

datatype exn = Rejected string | TypeError

datatype json =
    JUndefined
  | JNull
  | JBool bool
  | JNum int
  | JStr string
  | JArr "json list"
  | JObj "(string \<times> json) list"

text \<open>
  The world outside: whether a call made after a given history rejects (and with what),
  the token a successful \<^verbatim>\<open>getAuthToken\<close> resolves to, and the body (\<^verbatim>\<open>response.data\<close>) a
  successful \<^verbatim>\<open>axios.post\<close> resolves to.
\<close>

record world =
  rejects :: "effect list \<Rightarrow> call \<Rightarrow> exn option"
  tokenFor :: "effect list \<Rightarrow> string \<Rightarrow> string \<Rightarrow> string"
  responseData :: "effect list \<Rightarrow> string \<Rightarrow> json"

type_synonym 'a run = "effect list \<Rightarrow> (exn + 'a) \<times> effect list"

definition perform :: "world \<Rightarrow> call \<Rightarrow> unit run" where
  "perform w c tr =
     (case rejects w tr c of
        Some e \<Rightarrow> (Inl e, tr @ [Called c])
      | None \<Rightarrow> (Inr (), tr @ [Called c]))"

definition getAuthToken :: "world \<Rightarrow> string \<Rightarrow> string \<Rightarrow> string run" where
  "getAuthToken w uid secret tr =
     (case perform w (Call_getAuthToken uid secret) tr of
        (Inl e, tr') \<Rightarrow> (Inl e, tr')
      | (Inr u, tr') \<Rightarrow> (Inr (tokenFor w tr uid secret), tr'))"

definition consoleLog :: "string \<Rightarrow> unit run" where
  "consoleLog m tr = (Inr (), tr @ [ConsoleLog m])"

subsection \<open>ActionDispatcher\<close>

text \<open>The loop \<^verbatim>\<open>for (const message of action.params)\<close> of the last case.\<close>

fun sendNotifications :: "world \<Rightarrow> string \<Rightarrow> string \<Rightarrow> string list \<Rightarrow> unit run" where
  "sendNotifications w ep tok [] tr = (Inr (), tr)"
| "sendNotifications w ep tok (m # ms) tr =
     (case perform w (Call_sendNotification ep tok m) tr of
        (Inl e, tr') \<Rightarrow> (Inl e, tr')
      | (Inr u, tr') \<Rightarrow> sendNotifications w ep tok ms tr')"

text \<open>
  The body of the loop over the actions: the \<^verbatim>\<open>switch\<close> on the action type. In the first
  three cases \<^verbatim>\<open>!data.id\<close> holds for an absent and for an empty id; \<^verbatim>\<open>continue\<close> goes to the
  next action.
\<close>

definition dispatch :: "world \<Rightarrow> string \<Rightarrow> string \<Rightarrow> PubSubData \<Rightarrow> RuleAction \<Rightarrow> unit run" where
  "dispatch w ep tok d a tr =
     (case type a of
        AddLabel \<Rightarrow>
          (case id_data d of
             None \<Rightarrow> consoleLog ''invalid data for add label action'' tr
           | Some i \<Rightarrow>
               if i = [] \<or> length (params a) = 0
               then consoleLog ''invalid data for add label action'' tr
               else perform w (Call_addLabels ep tok i (params a)) tr)
      | Archive \<Rightarrow>
          (case id_data d of
             None \<Rightarrow> consoleLog ''invalid data for archive action'' tr
           | Some i \<Rightarrow>
               if i = [] then consoleLog ''invalid data for archive action'' tr
               else perform w (Call_archivePage ep tok i) tr)
      | MarkAsRead \<Rightarrow>
          (case id_data d of
             None \<Rightarrow> consoleLog ''invalid data for mark as read action'' tr
           | Some i \<Rightarrow>
               if i = [] then consoleLog ''invalid data for mark as read action'' tr
               else perform w (Call_markPageAsRead ep tok i) tr)
      | SendNotification \<Rightarrow> sendNotifications w ep tok (params a) tr)"

fun runActions :: "world \<Rightarrow> string \<Rightarrow> string \<Rightarrow> PubSubData \<Rightarrow> RuleAction list \<Rightarrow> unit run" where
  "runActions w ep tok d [] tr = (Inr (), tr)"
| "runActions w ep tok d (a # as) tr =
     (case dispatch w ep tok d a tr of
        (Inl e, tr') \<Rightarrow> (Inl e, tr')
      | (Inr u, tr') \<Rightarrow> runActions w ep tok d as tr')"

subsection \<open>RuleEngine\<close>

fun triggerActions ::
  "world \<Rightarrow> parser \<Rightarrow> string \<Rightarrow> Rule list \<Rightarrow> PubSubData \<Rightarrow> string \<Rightarrow> string \<Rightarrow> unit run" where
  "triggerActions w parse uid [] d ep secret tr = (Inr (), tr)"
| "triggerActions w parse uid (rule # rules) d ep secret tr =
     (if \<not> isValidData parse (filter_rule rule) d
      then triggerActions w parse uid rules d ep secret tr
      else (case getAuthToken w uid secret tr of
              (Inl e, tr') \<Rightarrow> (Inl e, tr')
            | (Inr authToken, tr') \<Rightarrow>
                (case runActions w ep authToken d (actions rule) tr' of
                   (Inl e, tr'') \<Rightarrow> (Inl e, tr'')
                 | (Inr u, tr'') \<Rightarrow> triggerActions w parse uid rules d ep secret tr'')))"

text \<open>
  Reading a property \<^verbatim>\<open>x.k\<close> for a name \<^verbatim>\<open>k\<close> that is not built in (the code reads
  \<^verbatim>\<open>data\<close> and \<^verbatim>\<open>rules\<close>): a \<^verbatim>\<open>TypeError\<close> on \<^verbatim>\<open>undefined\<close> and \<^verbatim>\<open>null\<close>, the value or
  \<^verbatim>\<open>undefined\<close> on an object, \<^verbatim>\<open>undefined\<close> on everything else.
\<close>

fun getProp :: "json \<Rightarrow> string \<Rightarrow> exn + json" where
  "getProp JUndefined k = Inl TypeError"
| "getProp JNull k = Inl TypeError"
| "getProp (JObj kvs) k = Inr (case map_of kvs k of None \<Rightarrow> JUndefined | Some v \<Rightarrow> v)"
| "getProp v k = Inr JUndefined"

text \<open>
  \<^verbatim>\<open>getEnabledRules\<close> returns \<^verbatim>\<open>response.data.data.rules.rules\<close> under a cast to
  \<^verbatim>\<open>Rule[]\<close>, which checks nothing at run time: the result is whatever value sits there.
\<close>

definition getEnabledRules :: "world \<Rightarrow> string \<Rightarrow> string \<Rightarrow> string \<Rightarrow> json run" where
  "getEnabledRules w uid ep secret tr =
     (case getAuthToken w uid secret tr of
        (Inl e, tr') \<Rightarrow> (Inl e, tr')
      | (Inr auth, tr') \<Rightarrow>
          (case perform w (Call_axiosPost (ep @ ''/graphql'') (''auth='' @ auth @ '';'')) tr' of
             (Inl e, tr'') \<Rightarrow> (Inl e, tr'')
           | (Inr u, tr'') \<Rightarrow>
               (case getProp (responseData w tr' (ep @ ''/graphql'')) ''data'' of
                  Inl e \<Rightarrow> (Inl e, tr'')
                | Inr v1 \<Rightarrow>
                    (case getProp v1 ''rules'' of
                       Inl e \<Rightarrow> (Inl e, tr'')
                     | Inr v2 \<Rightarrow>
                         (case getProp v2 ''rules'' of
                            Inl e \<Rightarrow> (Inl e, tr'')
                          | Inr v3 \<Rightarrow> (Inr v3, tr''))))))"

subsection \<open>An instance of the parser\<close>

text \<open>
  A parser to evaluate the model at concrete filters. On input without quotes and
  backslashes it does what the library documents: the terms are the maximal runs of
  non-whitespace characters; a term \<^verbatim>\<open>key:value\<close> whose key is a registered keyword gives a
  keyword offset (\<^verbatim>\<open>-key:value\<close> too, one position later); a term starting with \<^verbatim>\<open>-\<close>
  and without colon is an exclusion and gives no offset; any other term gives a text
  offset. The theorems about \<^verbatim>\<open>rule.ts\<close> hold for every parser; this one only serves to
  apply them to examples.
\<close>

fun splitTerms :: "nat \<Rightarrow> string \<Rightarrow> string \<Rightarrow> (string \<times> nat) list" where
  "splitTerms pos cur [] = (if cur = [] then [] else [(rev cur, pos - length cur)])"
| "splitTerms pos cur (c # cs) =
     (if isSpace c
      then (if cur = [] then [] else [(rev cur, pos - length cur)]) @ splitTerms (Suc pos) [] cs
      else splitTerms (Suc pos) (c # cur) cs)"

definition classifyTerm :: "SearchParserOptions \<Rightarrow> string \<times> nat \<Rightarrow> SearchParserOffset list" where
  "classifyTerm opts tm =
     (let t = fst tm; start = snd tm; stop = start + length t in
      if CHR '':'' \<in> set t
      then (let key = takeWhile (\<lambda>c. c \<noteq> CHR '':'') t;
                val = drop (Suc (length key)) t
            in if key \<in> set (keywords_opt opts)
               then [KeyWordOffset key (Some val) start stop]
               else if key \<noteq> [] \<and> hd key = CHR ''-'' \<and> tl key \<in> set (keywords_opt opts)
               then [KeyWordOffset (tl key) (Some val) (Suc start) stop]
               else [TextOffset t start stop])
      else if t \<noteq> [] \<and> hd t = CHR ''-'' then []
      else [TextOffset t start stop])"

definition plainParse :: parser where
  "plainParse s opts = \<lparr>offsets = Some (concat (map (classifyTerm opts) (splitTerms 0 [] s)))\<rparr>"

subsection \<open>Notions used in the statements\<close>

text \<open>A keyword offset of the keyword \<^verbatim>\<open>subscription\<close>, and the value an offset carries.\<close>

fun isSubscriptionKeyword :: "SearchParserOffset \<Rightarrow> bool" where
  "isSubscriptionKeyword (KeyWordOffset k v s e) = (k = ''subscription'')"
| "isSubscriptionKeyword (TextOffset t s e) = False"

fun valueOf :: "SearchParserOffset \<Rightarrow> string option" where
  "valueOf (KeyWordOffset k v s e) = v"
| "valueOf (TextOffset t s e) = None"

text \<open>
  What is assumed of the library where a statement needs it: the keyword of a keyword
  offset is text of the parsed string.
\<close>

definition keywordsFromInput :: "parser \<Rightarrow> bool" where
  "keywordsFromInput parse =
     (\<forall>s opts offs k v a b.
        offsets (parse s opts) = Some offs \<longrightarrow> KeyWordOffset k v a b \<in> set offs \<longrightarrow> sublist k s)"

text \<open>
  The characters a filter may hold beside the wildcard and still count as the wildcard:
  whitespace, the double quote, the colon, and any other non-word character.
\<close>

definition strippedChar :: "char \<Rightarrow> bool" where
  "strippedChar c =
     (isSpace c \<or> c = CHR 0x22 \<or> c = CHR '':'' \<or> (\<not> isWordChar c \<and> c \<noteq> CHR ''*''))"

text \<open>Token fetches among the effects of a run.\<close>

fun isTokenCall :: "effect \<Rightarrow> bool" where
  "isTokenCall (Called (Call_getAuthToken u s)) = True"
| "isTokenCall e = False"

text \<open>
  No call of the effects \<open>new\<close>, made in this order after the history \<open>tr\<close>, rejects.
\<close>

fun noFailure :: "world \<Rightarrow> effect list \<Rightarrow> effect list \<Rightarrow> bool" where
  "noFailure w tr [] = True"
| "noFailure w tr (Called c # rest) =
     (rejects w tr c = None \<and> noFailure w (tr @ [Called c]) rest)"
| "noFailure w tr (ConsoleLog m # rest) = noFailure w (tr @ [ConsoleLog m]) rest"

text \<open>
  The outcome of a run started after \<open>tr\<close> extends \<open>tr\<close>; if one of its calls rejects,
  that call is its last effect and its error is the result.
\<close>

definition haltsAtFailure :: "world \<Rightarrow> effect list \<Rightarrow> (exn + 'a) \<times> effect list \<Rightarrow> bool" where
  "haltsAtFailure w tr out =
     (\<exists>new. snd out = tr @ new \<and>
        (case fst out of
           Inr v \<Rightarrow> noFailure w tr new
         | Inl e \<Rightarrow> noFailure w tr new \<or>
             (\<exists>pre c. new = pre @ [Called c] \<and> noFailure w tr pre \<and>
                rejects w (tr @ pre) c = Some e)))"

text \<open>
  An action call that respects the preconditions for the event \<open>d\<close>: it carries the
  non-empty id of the event, and a label call carries at least one label.
\<close>

fun goodEffect :: "PubSubData \<Rightarrow> effect \<Rightarrow> bool" where
  "goodEffect d (Called (Call_addLabels ep tok i ps)) =
     (ps \<noteq> [] \<and> i \<noteq> [] \<and> id_data d = Some i)"
| "goodEffect d (Called (Call_archivePage ep tok i)) = (i \<noteq> [] \<and> id_data d = Some i)"
| "goodEffect d (Called (Call_markPageAsRead ep tok i)) = (i \<noteq> [] \<and> id_data d = Some i)"
| "goodEffect d e = True"


fun nullish :: "json \<Rightarrow> bool" where
  "nullish JUndefined = True"
| "nullish JNull = True"
| "nullish v = False"

text \<open>The value of a property, where reading it does not throw.\<close>

definition propOf :: "json \<Rightarrow> string \<Rightarrow> json" where
  "propOf v k = (case getProp v k of Inl e \<Rightarrow> JUndefined | Inr x \<Rightarrow> x)"

subsection \<open>Sample data\<close>

text \<open>The filter \<^verbatim>\<open>" *:"\<close>: quote, space, star, colon, quote.\<close>

definition starFilter :: string where
  "starFilter = [CHR 0x22, CHR '' '', CHR ''*'', CHR '':'', CHR 0x22]"

definition sampleEvent :: "string option \<Rightarrow> string option \<Rightarrow> PubSubData" where
  "sampleEvent i s = \<lparr>id_data = i, subscription = s\<rparr>"

definition sampleRule :: "string \<Rightarrow> RuleAction list \<Rightarrow> Rule" where
  "sampleRule f acts =
     \<lparr>id_rule = ''r1'', userId = ''u1'', name = ''rule'', filter_rule = f, actions = acts,
      description = None, enabled = True, createdAt = 0, updatedAt = 0\<rparr>"

definition sampleAction :: "RuleActionType \<Rightarrow> string list \<Rightarrow> RuleAction" where
  "sampleAction t ps = \<lparr>type = t, params = ps\<rparr>"

text \<open>The body of an error-code response of the rule store.\<close>

definition errorCodeResponse :: json where
  "errorCodeResponse =
     JObj [(''data'', JObj [(''rules'', JObj [(''errorCodes'', JArr [JStr ''UNAUTHORIZED''])])])]"

text \<open>
  A world where no call rejects; each token records how many effects came before it, and
  the rule store answers with the error-code response.
\<close>

definition calmWorld :: world where
  "calmWorld =
     \<lparr>rejects = (\<lambda>tr c. None),
      tokenFor = (\<lambda>tr u s. ''t'' @ replicate (length tr) CHR ''+''),
      responseData = (\<lambda>tr url. errorCodeResponse)\<rparr>"

text \<open>A world where the archive API and the rule store reject every call.\<close>

definition outageWorld :: world where
  "outageWorld =
     \<lparr>rejects = (\<lambda>tr c. case c of
                    Call_archivePage ep tok i \<Rightarrow> Some (Rejected ''archive down'')
                  | Call_axiosPost url cookie \<Rightarrow> Some (Rejected ''store down'')
                  | _ \<Rightarrow> None),
      tokenFor = (\<lambda>tr u s. ''t'' @ replicate (length tr) CHR ''+''),
      responseData = (\<lambda>tr url. JNull)\<rparr>"


text \<open>Two worlds where no call rejects: a response without data, and a response with rules.\<close>

definition nullDataWorld :: world where
  "nullDataWorld =
     \<lparr>rejects = (\<lambda>tr c. None),
      tokenFor = (\<lambda>tr u s. ''t''),
      responseData = (\<lambda>tr url. JObj [(''data'', JNull)])\<rparr>"

definition successWorld :: world where
  "successWorld =
     \<lparr>rejects = (\<lambda>tr c. None),
      tokenFor = (\<lambda>tr u s. ''t''),
      responseData =
        (\<lambda>tr url. JObj [(''data'', JObj [(''rules'', JObj [(''rules'', JArr [])])])])\<rparr>"

section \<open>Properties of the filter parser and the predicate evaluator\<close>

lemma set_replace_filter: "set (replace_filter f) \<subseteq> set f"
  by (induction f rule: replace_filter.induct) auto

lemma capture_other: "\<not> isSubscriptionKeyword x \<Longrightarrow> captureKeyword r x = r"
  by (cases x) auto

lemma capture_subscription:
  "isSubscriptionKeyword x \<Longrightarrow> captureKeyword r x = r\<lparr>subscriptionFilter := valueOf x\<rparr>"
  by (cases x) auto

lemma foldl_capture_none:
  "\<forall>x \<in> set offs. \<not> isSubscriptionKeyword x \<Longrightarrow> foldl captureKeyword r offs = r"
  by (induction offs arbitrary: r) (auto simp: capture_other)

lemma foldl_capture_last:
  "filter isSubscriptionKeyword offs \<noteq> [] \<Longrightarrow>
   foldl captureKeyword r offs =
     r\<lparr>subscriptionFilter := valueOf (last (filter isSubscriptionKeyword offs))\<rparr>"
proof (induction offs arbitrary: r rule: rev_induct)
  case Nil
  then show ?case by simp
next
  case (snoc x xs)
  show ?case
  proof (cases "isSubscriptionKeyword x")
    case True
    then show ?thesis by (simp add: capture_subscription)
  next
    case False
    with snoc show ?thesis by (simp add: capture_other)
  qed
qed

lemma isSubscription_hasKeyword: "isSubscriptionKeyword x \<Longrightarrow> hasKeyword x"
  by (cases x) auto

lemma filter_subscription_hasKeyword:
  "filter isSubscriptionKeyword (filter hasKeyword offs) = filter isSubscriptionKeyword offs"
  by (induction offs) (auto simp: isSubscription_hasKeyword)

lemma s_not_stripped: "\<not> strippedChar CHR ''s''"
  by (simp add: strippedChar_def isSpace_def isWordChar_def)

lemma subscription_needs_s:
  assumes "sublist ''subscription'' t"
  shows "CHR ''s'' \<in> set t"
proof -
  have "set ''subscription'' \<subseteq> set t" using assms by (rule set_mono_sublist)
  then show ?thesis by simp
qed

lemma no_subscription_offsets:
  assumes c: "keywordsFromInput parse"
    and s: "CHR ''s'' \<notin> set t"
    and o: "offsets (parse t opts) = Some offs"
  shows "\<forall>x \<in> set offs. \<not> isSubscriptionKeyword x"
proof
  fix x assume x: "x \<in> set offs"
  show "\<not> isSubscriptionKeyword x"
  proof
    assume k: "isSubscriptionKeyword x"
    then obtain v a b where "x = KeyWordOffset ''subscription'' v a b" by (cases x) auto
    with c o x have "sublist ''subscription'' t" unfolding keywordsFromInput_def by blast
    with s subscription_needs_s show False by blast
  qed
qed

lemma parse_without_s:
  assumes c: "keywordsFromInput parse" and s: "CHR ''s'' \<notin> set f"
  shows "parseSearchFilter parse f = \<lparr>subscriptionFilter = None\<rparr>"
proof -
  have t: "CHR ''s'' \<notin> set (replace_filter f)" using s set_replace_filter by blast
  show ?thesis
    unfolding parseSearchFilter_def Let_def
    using no_subscription_offsets[OF c t]
    by (auto split: option.splits simp: foldl_capture_none)
qed

subsection \<open>The instance of the parser takes its keywords from the input\<close>

lemma splitTerms_sublist:
  "(t, st) \<in> set (splitTerms pos cur s) \<Longrightarrow> sublist t (rev cur @ s)"
proof (induction s arbitrary: pos cur)
  case Nil
  then show ?case by (auto split: if_splits)
next
  case (Cons c cs)
  show ?case
  proof (cases "isSpace c")
    case True
    with Cons.prems
    have "(cur \<noteq> [] \<and> t = rev cur) \<or> (t, st) \<in> set (splitTerms (Suc pos) [] cs)"
      by (auto split: if_splits)
    then show ?thesis
    proof
      assume "cur \<noteq> [] \<and> t = rev cur"
      then show ?thesis by simp
    next
      assume "(t, st) \<in> set (splitTerms (Suc pos) [] cs)"
      from Cons.IH[OF this] have "sublist t cs" by simp
      then show ?thesis by (simp add: sublist_append sublist_Cons_right)
    qed
  next
    case False
    with Cons.prems have "(t, st) \<in> set (splitTerms (Suc pos) (c # cur) cs)" by simp
    from Cons.IH[OF this] show ?thesis by simp
  qed
qed

lemma classifyTerm_sublist:
  assumes "KeyWordOffset k v a b \<in> set (classifyTerm opts (t, st))"
  shows "sublist k t"
proof -
  let ?key = "takeWhile (\<lambda>c. c \<noteq> CHR '':'') t"
  have p: "prefix ?key t" by (metis prefixI takeWhile_dropWhile_id)
  from assms have "k = ?key \<or> k = tl ?key"
    by (auto simp: classifyTerm_def Let_def split: if_splits)
  then show ?thesis
  proof
    assume "k = ?key"
    with p show ?thesis by (simp add: prefix_imp_sublist)
  next
    assume k: "k = tl ?key"
    have "suffix (tl ?key) ?key" by (rule suffix_tl)
    then have "sublist (tl ?key) ?key" by (rule suffix_imp_sublist)
    with p k show ?thesis using prefix_imp_sublist sublist_order.order_trans by blast
  qed
qed

lemma plainParse_keywordsFromInput: "keywordsFromInput plainParse"
  unfolding keywordsFromInput_def
proof (intro allI impI)
  fix s opts offs k v a b
  assume o: "offsets (plainParse s opts) = Some offs"
    and m: "KeyWordOffset k v a b \<in> set offs"
  from o m obtain t st where ts: "(t, st) \<in> set (splitTerms 0 [] s)"
    and kk: "KeyWordOffset k v a b \<in> set (classifyTerm opts (t, st))"
    by (auto simp: plainParse_def)
  from splitTerms_sublist[OF ts] have "sublist t s" by simp
  with classifyTerm_sublist[OF kk] show "sublist k s"
    using sublist_order.order_trans by blast
qed

subsection \<open>Wildcard filters\<close>

text \<open>
  Claim C3. A filter that is empty, or that is the single character \<^verbatim>\<open>*\<close> once its
  whitespace, quotes and colons (and any other non-word character) are taken away, parses
  to the empty search filter, and every event is valid for it. The code deletes less
  than the claim describes (only the four-character sequences matched by its pattern), so
  such a filter can reach the parser of the library; the result is the same for every
  parser that takes its keywords from the text it parses, since that text holds no letter.
\<close>

theorem wildcard_filter_matches_all:
  assumes "keywordsFromInput parse"
    and "f = [] \<or> filter (\<lambda>c. \<not> strippedChar c) f = ''*''"
  shows "parseSearchFilter parse f = \<lparr>subscriptionFilter = None\<rparr> \<and> isValidData parse f e"
proof -
  have "CHR ''s'' \<notin> set f"
  proof
    assume m: "CHR ''s'' \<in> set f"
    then have "f \<noteq> []" by auto
    with assms(2) have eq: "filter (\<lambda>c. \<not> strippedChar c) f = ''*''" by simp
    from m s_not_stripped have "CHR ''s'' \<in> set (filter (\<lambda>c. \<not> strippedChar c) f)" by simp
    with eq show False by simp
  qed
  from parse_without_s[OF assms(1) this] show ?thesis by (simp add: isValidData_def)
qed

text \<open>
  The filter \<^verbatim>\<open>" *:"\<close> is left as it is by the replacement, goes through the parser, and
  matches an event without subscription.
\<close>

theorem wildcard_filter_matches_all_witness:
  "replace_filter starFilter = starFilter \<and>
   parseSearchFilter plainParse starFilter = \<lparr>subscriptionFilter = None\<rparr> \<and>
   isValidData plainParse starFilter (sampleEvent None None)"
proof -
  have h: "starFilter = [] \<or> filter (\<lambda>c. \<not> strippedChar c) starFilter = ''*''"
    by (simp add: starFilter_def strippedChar_def isSpace_def isWordChar_def)
  have r: "replace_filter starFilter = starFilter"
    by (simp add: starFilter_def isSpace_def isWordChar_def)
  from wildcard_filter_matches_all[OF plainParse_keywordsFromInput h] r show ?thesis by simp
qed

subsection \<open>Subscription filters\<close>

text \<open>
  Claim C4, as the code has it. When the parsed filter holds a non-empty subscription
  filter \<open>s\<close>, an event is valid exactly when its subscription is present and non-empty,
  and \<open>s\<close> is \<^verbatim>\<open>*\<close> or equal to it.
\<close>

theorem isValid_subscription_iff:
  assumes "subscriptionFilter (parseSearchFilter parse f) = Some s" and "s \<noteq> []"
  shows "isValidData parse f e =
           (truthy (subscription e) \<and> (s = ''*'' \<or> subscription e = Some s))"
  using assms by (simp add: isValidData_def isValidSubscription_def)

text \<open>The three events of the claim, for the filter \<^verbatim>\<open>subscription:newsletter\<close>.\<close>

theorem isValid_subscription_iff_witness:
  "isValidData plainParse ''subscription:newsletter'' (sampleEvent None (Some ''newsletter'')) \<and>
   \<not> isValidData plainParse ''subscription:newsletter'' (sampleEvent None (Some ''digest'')) \<and>
   \<not> isValidData plainParse ''subscription:newsletter'' (sampleEvent None None)"
proof -
  have h: "subscriptionFilter (parseSearchFilter plainParse ''subscription:newsletter'') =
           Some ''newsletter''"
    by code_simp
  have n: "''newsletter'' \<noteq> []" by simp
  show ?thesis
    by (simp add: isValid_subscription_iff[OF h n] sampleEvent_def)
qed

text \<open>
  The claim as stated fails where the subscription of the event is present and empty:
  the filter \<^verbatim>\<open>subscription:*\<close> holds the subscription filter \<^verbatim>\<open>*\<close>, and the event is not
  valid.
\<close>

theorem isValid_present_counterexample:
  "subscriptionFilter (parseSearchFilter plainParse ''subscription:*'') = Some ''*'' \<and>
   subscription (sampleEvent None (Some [])) \<noteq> None \<and>
   \<not> isValidSubscription ''*'' (sampleEvent None (Some [])) \<and>
   \<not> isValidData plainParse ''subscription:*'' (sampleEvent None (Some []))"
  by code_simp

text \<open>
  Claim C5. When the parser reports several keyword offsets of \<^verbatim>\<open>subscription\<close>, the
  parsed filter holds the value of the last one.
\<close>

theorem last_subscription_wins:
  assumes "f \<noteq> []" and "replace_filter f \<noteq> []" and "replace_filter f \<noteq> ''*''"
    and "offsets (parse (replace_filter f)
           \<lparr>keywords_opt = [''subscription''], tokenize = True\<rparr>) = Some offs"
    and "filter isSubscriptionKeyword offs \<noteq> []"
  shows "subscriptionFilter (parseSearchFilter parse f) =
           valueOf (last (filter isSubscriptionKeyword offs))"
proof -
  have "filter isSubscriptionKeyword (filter hasKeyword offs) \<noteq> []"
    unfolding filter_subscription_hasKeyword by (rule assms(5))
  from foldl_capture_last[OF this]
  have "foldl captureKeyword \<lparr>subscriptionFilter = None\<rparr> (filter hasKeyword offs) =
        \<lparr>subscriptionFilter = valueOf (last (filter isSubscriptionKeyword offs))\<rparr>"
    by (simp only: filter_subscription_hasKeyword) simp
  with assms(1-4) show ?thesis
    by (simp add: parseSearchFilter_def)
qed

theorem last_subscription_wins_witness:
  "subscriptionFilter (parseSearchFilter plainParse ''subscription:a x subscription:b'') =
     Some ''b''"
proof -
  let ?f = "''subscription:a x subscription:b''"
  let ?offs = "[KeyWordOffset ''subscription'' (Some ''a'') 0 14, TextOffset ''x'' 15 16,
                KeyWordOffset ''subscription'' (Some ''b'') 17 31]"
  have r: "replace_filter ?f = ?f" by code_simp
  have a1: "?f \<noteq> []" by simp
  have a2: "replace_filter ?f \<noteq> []" unfolding r by simp
  have a3: "replace_filter ?f \<noteq> ''*''" unfolding r by simp
  have a4: "offsets (plainParse (replace_filter ?f)
              \<lparr>keywords_opt = [''subscription''], tokenize = True\<rparr>) = Some ?offs"
    unfolding r by code_simp
  have a5: "filter isSubscriptionKeyword ?offs \<noteq> []" by simp
  from last_subscription_wins[where parse = plainParse, OF a1 a2 a3 a4 a5]
  show ?thesis by simp
qed

text \<open>
  Claim C10. A subscription keyword captured with the empty string as its value counts
  as unset: every event is valid, with or without a subscription.
\<close>

theorem empty_subscription_value_is_unset:
  assumes "subscriptionFilter (parseSearchFilter parse f) = Some []"
  shows "isValidData parse f e"
  using assms by (simp add: isValidData_def)

theorem empty_subscription_value_is_unset_witness:
  "isValidData plainParse ''subscription:'' (sampleEvent None None) \<and>
   isValidData plainParse ''subscription:'' (sampleEvent None (Some ''digest''))"
proof -
  have h: "subscriptionFilter (parseSearchFilter plainParse ''subscription:'') = Some []"
    by code_simp
  show ?thesis
    by (simp add: empty_subscription_value_is_unset[OF h])
qed

section \<open>Properties of the dispatcher and the rule engine\<close>

subsection \<open>Runs stop at the first rejected call\<close>

lemma noFailure_append:
  "noFailure w tr (a @ b) = (noFailure w tr a \<and> noFailure w (tr @ a) b)"
proof (induction a arbitrary: tr)
  case Nil then show ?case by simp
next
  case (Cons x xs)
  then show ?case by (cases x) auto
qed

lemma halts_perform: "haltsAtFailure w tr (perform w c tr)"
proof (cases "rejects w tr c")
  case None
  then show ?thesis by (simp add: haltsAtFailure_def perform_def)
next
  case (Some e)
  then have p: "perform w c tr = (Inl e, tr @ [Called c])" by (simp add: perform_def)
  have "\<exists>pre c'. [Called c] = pre @ [Called c'] \<and> noFailure w tr pre \<and>
          rejects w (tr @ pre) c' = Some e"
    using Some by (intro exI[of _ "[]"] exI[of _ c]) simp
  then show ?thesis unfolding haltsAtFailure_def p by simp
qed

lemma halts_log: "haltsAtFailure w tr (consoleLog m tr)"
  by (simp add: haltsAtFailure_def consoleLog_def)

lemma halts_return: "haltsAtFailure w tr (Inr v, tr)"
  by (simp add: haltsAtFailure_def)

lemma halts_throw: "haltsAtFailure w tr out \<Longrightarrow> fst out = Inr v \<Longrightarrow> haltsAtFailure w tr (Inl e, snd out)"
  by (auto simp: haltsAtFailure_def)

lemma halts_bind:
  assumes f: "haltsAtFailure w tr out"
    and g: "\<And>v tr'. out = (Inr v, tr') \<Longrightarrow> haltsAtFailure w tr' (g v tr')"
  shows "haltsAtFailure w tr
           (case out of (Inl e, tr') \<Rightarrow> (Inl e, tr') | (Inr v, tr') \<Rightarrow> g v tr')"
proof (cases out)
  case (Pair res tr')
  show ?thesis
  proof (cases res)
    case (Inl e)
    with Pair f show ?thesis by (simp add: haltsAtFailure_def)
  next
    case (Inr v)
    with Pair f obtain n1 where n1: "tr' = tr @ n1" "noFailure w tr n1"
      by (auto simp: haltsAtFailure_def)
    from g[of v tr'] Pair Inr have h: "haltsAtFailure w tr' (g v tr')" by simp
    then obtain n2 where n2: "snd (g v tr') = tr' @ n2"
      and c2: "(case fst (g v tr') of
           Inr v \<Rightarrow> noFailure w tr' n2
         | Inl e \<Rightarrow> noFailure w tr' n2 \<or>
             (\<exists>pre c. n2 = pre @ [Called c] \<and> noFailure w tr' pre \<and> rejects w (tr' @ pre) c = Some e))"
      unfolding haltsAtFailure_def by blast
    have "haltsAtFailure w tr (g v tr')"
      unfolding haltsAtFailure_def
    proof (intro exI[of _ "n1 @ n2"] conjI)
      show "snd (g v tr') = tr @ n1 @ n2" using n1 n2 by simp
      show "case fst (g v tr') of
           Inr v \<Rightarrow> noFailure w tr (n1 @ n2)
         | Inl e \<Rightarrow> noFailure w tr (n1 @ n2) \<or>
             (\<exists>pre c. n1 @ n2 = pre @ [Called c] \<and> noFailure w tr pre \<and> rejects w (tr @ pre) c = Some e)"
      proof (cases "fst (g v tr')")
        case (Inr u)
        with c2 n1 show ?thesis by (simp add: noFailure_append)
      next
        case (Inl e)
        with c2 have "noFailure w tr' n2 \<or>
             (\<exists>pre c. n2 = pre @ [Called c] \<and> noFailure w tr' pre \<and> rejects w (tr' @ pre) c = Some e)"
          by simp
        then show ?thesis
        proof
          assume "noFailure w tr' n2"
          with Inl n1 show ?thesis by (simp add: noFailure_append)
        next
          assume "\<exists>pre c. n2 = pre @ [Called c] \<and> noFailure w tr' pre \<and> rejects w (tr' @ pre) c = Some e"
          then obtain pre c where p: "n2 = pre @ [Called c]" "noFailure w tr' pre"
            "rejects w (tr' @ pre) c = Some e" by blast
          have "n1 @ n2 = (n1 @ pre) @ [Called c]" using p by simp
          moreover have "noFailure w tr (n1 @ pre)" using n1 p by (simp add: noFailure_append)
          moreover have "rejects w (tr @ (n1 @ pre)) c = Some e" using n1 p by simp
          ultimately show ?thesis using Inl by (simp only: sum.case) blast
        qed
      qed
    qed
    with Pair Inr show ?thesis by simp
  qed
qed

lemma halts_sendNotifications: "haltsAtFailure w tr (sendNotifications w ep tok ms tr)"
proof (induction ms arbitrary: tr)
  case Nil
  show ?case by (simp add: halts_return)
next
  case (Cons m ms)
  show ?case
    unfolding sendNotifications.simps
    by (rule halts_bind[OF halts_perform]) (rule Cons.IH)
qed

lemma halts_dispatch: "haltsAtFailure w tr (dispatch w ep tok d a tr)"
  unfolding dispatch_def
  by (simp add: halts_log halts_perform halts_sendNotifications
        split: RuleActionType.splits option.splits)

lemma halts_runActions: "haltsAtFailure w tr (runActions w ep tok d as tr)"
proof (induction as arbitrary: tr)
  case Nil
  show ?case by (simp add: halts_return)
next
  case (Cons a as)
  show ?case
    unfolding runActions.simps
    by (rule halts_bind[OF halts_dispatch]) (rule Cons.IH)
qed

lemma halts_getAuthToken: "haltsAtFailure w tr (getAuthToken w uid secret tr)"
proof -
  have "haltsAtFailure w tr
     (case perform w (Call_getAuthToken uid secret) tr of
        (Inl e, tr') \<Rightarrow> (Inl e, tr')
      | (Inr u, tr') \<Rightarrow> (Inr (tokenFor w tr uid secret), tr'))"
    by (rule halts_bind[OF halts_perform]) (rule halts_return)
  then show ?thesis by (simp add: getAuthToken_def)
qed

lemma halts_triggerActions:
  "haltsAtFailure w tr (triggerActions w parse uid rules d ep secret tr)"
proof (induction rules arbitrary: tr)
  case Nil
  show ?case by (simp add: halts_return)
next
  case (Cons r rs)
  show ?case
  proof (cases "isValidData parse (filter_rule r) d")
    case False
    then show ?thesis using Cons.IH by simp
  next
    case True
    have "haltsAtFailure w tr
      (case getAuthToken w uid secret tr of
              (Inl e, tr') \<Rightarrow> (Inl e, tr')
            | (Inr authToken, tr') \<Rightarrow>
                (case runActions w ep authToken d (actions r) tr' of
                   (Inl e, tr'') \<Rightarrow> (Inl e, tr'')
                 | (Inr u, tr'') \<Rightarrow> triggerActions w parse uid rs d ep secret tr''))"
      by (rule halts_bind[OF halts_getAuthToken], rule halts_bind[OF halts_runActions], rule Cons.IH)
    with True show ?thesis by simp
  qed
qed

lemma halts_getEnabledRules: "haltsAtFailure w tr (getEnabledRules w uid ep secret tr)"
  unfolding getEnabledRules_def
  apply (rule halts_bind[OF halts_getAuthToken])
  apply (rule halts_bind[OF halts_perform])
  apply (auto split: sum.splits simp: halts_return intro: halts_throw[OF halts_return, simplified])
  done

lemma halts_failed_call_last:
  assumes h: "haltsAtFailure w tr (res, tr')"
    and t: "tr' = p @ Called c # q" and l: "length tr \<le> length p"
    and r: "rejects w p c = Some e"
  shows "q = [] \<and> res = Inl e"
proof -
  from h obtain new where new: "tr' = tr @ new"
    and c: "(case res of
           Inr v \<Rightarrow> noFailure w tr new
         | Inl e \<Rightarrow> noFailure w tr new \<or>
             (\<exists>pre c. new = pre @ [Called c] \<and> noFailure w tr pre \<and> rejects w (tr @ pre) c = Some e))"
    unfolding haltsAtFailure_def by auto
  define p' where "p' = drop (length tr) p"
  from new t have "tr @ new = p @ Called c # q" by simp
  with l have "tr = take (length tr) p \<and> new = p' @ Called c # q"
    unfolding p'_def by (simp add: append_eq_append_conv_if)
  then have p': "p = tr @ p'" "new = p' @ Called c # q"
    unfolding p'_def by (metis append_take_drop_id, simp)
  have nf: "\<not> noFailure w tr new"
    using p' r by (simp add: noFailure_append)
  show ?thesis
  proof (cases res)
    case (Inr v)
    with c nf show ?thesis by simp
  next
    case (Inl e')
    with c nf obtain pre c' where pre: "new = pre @ [Called c']" "noFailure w tr pre"
      "rejects w (tr @ pre) c' = Some e'" by auto
    show ?thesis
    proof (cases "q = []")
      case True
      with p' pre have "p' = pre \<and> c = c'" by simp
      with pre p' r Inl True show ?thesis by simp
    next
      case False
      then obtain q' x where q: "q = q' @ [x]" by (metis rev_exhaust)
      with p' pre have "pre = p' @ Called c # q'" by simp
      with pre(2) have "rejects w (tr @ p') c = None" by (simp add: noFailure_append)
      with r p' show ?thesis by simp
    qed
  qed
qed

subsection \<open>Token fetches, skipped rules and respected preconditions\<close>

lemma snd_perform: "snd (perform w c tr) = tr @ [Called c]"
  by (simp add: perform_def split: option.splits)

lemma getAuthToken_cases:
  "getAuthToken w uid secret tr =
     (case rejects w tr (Call_getAuthToken uid secret) of
        Some e \<Rightarrow> (Inl e, tr @ [Called (Call_getAuthToken uid secret)])
      | None \<Rightarrow> (Inr (tokenFor w tr uid secret), tr @ [Called (Call_getAuthToken uid secret)]))"
  by (simp add: getAuthToken_def perform_def split: option.splits)

lemma tokens_sendNotifications:
  "filter isTokenCall (snd (sendNotifications w ep tok ms tr)) = filter isTokenCall tr"
proof (induction ms arbitrary: tr)
  case Nil
  show ?case by simp
next
  case (Cons m ms)
  show ?case
  proof (cases "rejects w tr (Call_sendNotification ep tok m)")
    case None
    then show ?thesis using Cons.IH[of "tr @ [Called (Call_sendNotification ep tok m)]"]
      by (simp add: perform_def)
  next
    case (Some e)
    then show ?thesis by (simp add: perform_def)
  qed
qed

lemma tokens_dispatch:
  "filter isTokenCall (snd (dispatch w ep tok d a tr)) = filter isTokenCall tr"
  by (simp add: dispatch_def consoleLog_def snd_perform tokens_sendNotifications
        split: RuleActionType.splits option.splits)

lemma tokens_runActions:
  "filter isTokenCall (snd (runActions w ep tok d as tr)) = filter isTokenCall tr"
proof (induction as arbitrary: tr)
  case Nil
  show ?case by simp
next
  case (Cons a as)
  obtain res tr' where o: "dispatch w ep tok d a tr = (res, tr')" by (cases "dispatch w ep tok d a tr")
  have t: "filter isTokenCall tr' = filter isTokenCall tr"
    using tokens_dispatch[of w ep tok d a tr] o by simp
  show ?case
  proof (cases res)
    case (Inl e)
    with o t show ?thesis by simp
  next
    case (Inr u)
    with o t Cons.IH[of tr'] show ?thesis by simp
  qed
qed

lemma tokens_triggerActions:
  "fst (triggerActions w parse uid rules d ep secret tr) = Inr () \<Longrightarrow>
   length (filter isTokenCall (snd (triggerActions w parse uid rules d ep secret tr))) =
     length (filter isTokenCall tr) +
     length (filter (\<lambda>r. isValidData parse (filter_rule r) d) rules)"
proof (induction rules arbitrary: tr)
  case Nil
  show ?case by simp
next
  case (Cons r rs)
  show ?case
  proof (cases "isValidData parse (filter_rule r) d")
    case False
    with Cons show ?thesis by simp
  next
    case True
    let ?c = "Call_getAuthToken uid secret"
    show ?thesis
    proof (cases "rejects w tr ?c")
      case (Some e)
      with True Cons.prems show ?thesis by (simp add: getAuthToken_cases)
    next
      case None
      let ?tok = "tokenFor w tr uid secret"
      let ?tr1 = "tr @ [Called ?c]"
      obtain res tr2 where o: "runActions w ep ?tok d (actions r) ?tr1 = (res, tr2)"
        by (cases "runActions w ep ?tok d (actions r) ?tr1")
      have t: "filter isTokenCall tr2 = filter isTokenCall ?tr1"
        using tokens_runActions[of w ep ?tok d "actions r" ?tr1] o by simp
      show ?thesis
      proof (cases res)
        case (Inl e)
        with True None o Cons.prems show ?thesis by (simp add: getAuthToken_cases)
      next
        case (Inr u)
        with True None o
        have eq: "triggerActions w parse uid (r # rs) d ep secret tr =
                  triggerActions w parse uid rs d ep secret tr2"
          by (simp add: getAuthToken_cases)
        with Cons.prems have "fst (triggerActions w parse uid rs d ep secret tr2) = Inr ()" by simp
        from Cons.IH[OF this] eq t True show ?thesis by simp
      qed
    qed
  qed
qed

lemma tokens_triggerActions_le:
  "length (filter isTokenCall (snd (triggerActions w parse uid rules d ep secret tr))) \<le>
     length (filter isTokenCall tr) +
     length (filter (\<lambda>r. isValidData parse (filter_rule r) d) rules)"
proof (induction rules arbitrary: tr)
  case Nil
  show ?case by simp
next
  case (Cons r rs)
  show ?case
  proof (cases "isValidData parse (filter_rule r) d")
    case False
    with Cons.IH[of tr] show ?thesis by simp
  next
    case True
    let ?c = "Call_getAuthToken uid secret"
    show ?thesis
    proof (cases "rejects w tr ?c")
      case (Some e)
      with True show ?thesis by (simp add: getAuthToken_cases)
    next
      case None
      let ?tok = "tokenFor w tr uid secret"
      let ?tr1 = "tr @ [Called ?c]"
      obtain res tr2 where o: "runActions w ep ?tok d (actions r) ?tr1 = (res, tr2)"
        by (cases "runActions w ep ?tok d (actions r) ?tr1")
      have t: "filter isTokenCall tr2 = filter isTokenCall ?tr1"
        using tokens_runActions[of w ep ?tok d "actions r" ?tr1] o by simp
      show ?thesis
      proof (cases res)
        case (Inl e)
        with True None o t show ?thesis by (simp add: getAuthToken_cases)
      next
        case (Inr u)
        with True None o
        have eq: "triggerActions w parse uid (r # rs) d ep secret tr =
                  triggerActions w parse uid rs d ep secret tr2"
          by (simp add: getAuthToken_cases)
        from Cons.IH[of tr2] eq t True show ?thesis by simp
      qed
    qed
  qed
qed

lemma tokens_reached:
  "\<exists>pre post. rules = pre @ post \<and>
     length (filter isTokenCall (snd (triggerActions w parse uid rules d ep secret tr))) =
       length (filter isTokenCall tr) +
       length (filter (\<lambda>r. isValidData parse (filter_rule r) d) pre) \<and>
     (fst (triggerActions w parse uid rules d ep secret tr) = Inr () \<longrightarrow> post = [])"
proof (induction rules arbitrary: tr)
  case Nil
  show ?case by simp
next
  case (Cons r rs)
  let ?M = "\<lambda>r. isValidData parse (filter_rule r) d"
  let ?run = "\<lambda>rules tr. triggerActions w parse uid rules d ep secret tr"
  have step: "\<And>tr'. ?run (r # rs) tr = ?run rs tr' \<Longrightarrow>
      length (filter isTokenCall tr') =
        length (filter isTokenCall tr) + length (filter ?M [r]) \<Longrightarrow> ?case"
  proof -
    fix tr'
    assume eq: "?run (r # rs) tr = ?run rs tr'"
      and cnt: "length (filter isTokenCall tr') =
        length (filter isTokenCall tr) + length (filter ?M [r])"
    from Cons.IH[of tr'] obtain pre post where p: "rs = pre @ post"
      "length (filter isTokenCall (snd (?run rs tr'))) =
         length (filter isTokenCall tr') + length (filter ?M pre)"
      "fst (?run rs tr') = Inr () \<longrightarrow> post = []" by blast
    have "r # rs = (r # pre) @ post \<and>
          length (filter isTokenCall (snd (?run (r # rs) tr))) =
            length (filter isTokenCall tr) + length (filter ?M (r # pre)) \<and>
          (fst (?run (r # rs) tr) = Inr () \<longrightarrow> post = [])"
      using p cnt unfolding eq by simp
    then show ?case by blast
  qed
  have stop: "fst (?run (r # rs) tr) \<noteq> Inr () \<Longrightarrow>
      length (filter isTokenCall (snd (?run (r # rs) tr))) =
        length (filter isTokenCall tr) + length (filter ?M [r]) \<Longrightarrow> ?case"
  proof -
    assume f: "fst (?run (r # rs) tr) \<noteq> Inr ()"
      and cnt: "length (filter isTokenCall (snd (?run (r # rs) tr))) =
        length (filter isTokenCall tr) + length (filter ?M [r])"
    have "r # rs = [r] @ rs \<and>
          length (filter isTokenCall (snd (?run (r # rs) tr))) =
            length (filter isTokenCall tr) + length (filter ?M [r]) \<and>
          (fst (?run (r # rs) tr) = Inr () \<longrightarrow> rs = [])"
      using f cnt by simp
    then show ?case by blast
  qed
  show ?case
  proof (cases "?M r")
    case False
    then show ?thesis by (intro step[of tr]) simp_all
  next
    case True
    let ?c = "Call_getAuthToken uid secret"
    show ?thesis
    proof (cases "rejects w tr ?c")
      case (Some e)
      with True show ?thesis by (intro stop) (simp_all add: getAuthToken_cases)
    next
      case None
      let ?tok = "tokenFor w tr uid secret"
      let ?tr1 = "tr @ [Called ?c]"
      obtain res tr2 where o: "runActions w ep ?tok d (actions r) ?tr1 = (res, tr2)"
        by (cases "runActions w ep ?tok d (actions r) ?tr1")
      have t: "filter isTokenCall tr2 = filter isTokenCall ?tr1"
        using tokens_runActions[of w ep ?tok d "actions r" ?tr1] o by simp
      show ?thesis
      proof (cases res)
        case (Inl e)
        with True None o t show ?thesis by (intro stop) (simp_all add: getAuthToken_cases)
      next
        case (Inr u)
        with True None o t show ?thesis
          by (intro step[of tr2]) (simp_all add: getAuthToken_cases)
      qed
    qed
  qed
qed

lemma skip_unmatched:
  "\<not> isValidData parse (filter_rule r) d \<Longrightarrow>
   triggerActions w parse uid (pre @ r # post) d ep secret tr =
   triggerActions w parse uid (pre @ post) d ep secret tr"
  by (induction pre arbitrary: tr) (auto split: prod.splits sum.splits)

lemma good_sendNotifications:
  "list_all (goodEffect d) tr \<Longrightarrow> list_all (goodEffect d) (snd (sendNotifications w ep tok ms tr))"
proof (induction ms arbitrary: tr)
  case Nil
  then show ?case by simp
next
  case (Cons m ms)
  have "list_all (goodEffect d) (tr @ [Called (Call_sendNotification ep tok m)])"
    using Cons.prems by simp
  from Cons.IH[OF this] Cons.prems show ?case
    by (cases "rejects w tr (Call_sendNotification ep tok m)") (simp_all add: perform_def)
qed

lemma good_dispatch:
  "list_all (goodEffect d) tr \<Longrightarrow> list_all (goodEffect d) (snd (dispatch w ep tok d a tr))"
  by (simp add: dispatch_def consoleLog_def snd_perform good_sendNotifications
        split: RuleActionType.splits option.splits)

lemma good_runActions:
  "list_all (goodEffect d) tr \<Longrightarrow> list_all (goodEffect d) (snd (runActions w ep tok d as tr))"
proof (induction as arbitrary: tr)
  case Nil
  then show ?case by simp
next
  case (Cons a as)
  obtain res tr' where o: "dispatch w ep tok d a tr = (res, tr')" by (cases "dispatch w ep tok d a tr")
  have t: "list_all (goodEffect d) tr'"
    using good_dispatch[OF Cons.prems, of w ep tok a] o by simp
  show ?case
  proof (cases res)
    case (Inl e)
    with o t show ?thesis by simp
  next
    case (Inr u)
    with o Cons.IH[OF t] show ?thesis by simp
  qed
qed

lemma good_triggerActions:
  "list_all (goodEffect d) tr \<Longrightarrow>
   list_all (goodEffect d) (snd (triggerActions w parse uid rules d ep secret tr))"
proof (induction rules arbitrary: tr)
  case Nil
  then show ?case by simp
next
  case (Cons r rs)
  show ?case
  proof (cases "isValidData parse (filter_rule r) d")
    case False
    with Cons show ?thesis by simp
  next
    case True
    let ?c = "Call_getAuthToken uid secret"
    show ?thesis
    proof (cases "rejects w tr ?c")
      case (Some e)
      with True Cons.prems show ?thesis by (simp add: getAuthToken_cases)
    next
      case None
      let ?tok = "tokenFor w tr uid secret"
      let ?tr1 = "tr @ [Called ?c]"
      obtain res tr2 where o: "runActions w ep ?tok d (actions r) ?tr1 = (res, tr2)"
        by (cases "runActions w ep ?tok d (actions r) ?tr1")
      have "list_all (goodEffect d) ?tr1" using Cons.prems by simp
      from good_runActions[OF this, of w ep ?tok "actions r"] o
      have t: "list_all (goodEffect d) tr2" by simp
      show ?thesis
      proof (cases res)
        case (Inl e)
        with True None o t show ?thesis by (simp add: getAuthToken_cases)
      next
        case (Inr u)
        with True None o Cons.IH[OF t] show ?thesis by (simp add: getAuthToken_cases)
      qed
    qed
  qed
qed

subsection \<open>What a list of actions does\<close>











subsection \<open>A rejected action call\<close>









text \<open>
  Claim C2. Whatever remote call rejects in a run of \<^verbatim>\<open>triggerActions\<close> or of
  \<^verbatim>\<open>getEnabledRules\<close> (a token fetch, the rule query, an action call): that call is the
  last effect of the run, so no later action and no later rule is executed, and its
  error is the result of the run.
\<close>

theorem remote_failure_propagates:
  "(snd (triggerActions w parse uid rules d ep secret tr) = p @ Called c # q \<and>
      length tr \<le> length p \<and> rejects w p c = Some e \<longrightarrow>
      q = [] \<and> fst (triggerActions w parse uid rules d ep secret tr) = Inl e) \<and>
   (snd (getEnabledRules w uid ep secret tr) = p' @ Called c' # q' \<and>
      length tr \<le> length p' \<and> rejects w p' c' = Some e' \<longrightarrow>
      q' = [] \<and> fst (getEnabledRules w uid ep secret tr) = Inl e')"
proof (intro conjI impI)
  let ?X = "triggerActions w parse uid rules d ep secret tr"
  assume h: "snd ?X = p @ Called c # q \<and> length tr \<le> length p \<and> rejects w p c = Some e"
  have "haltsAtFailure w tr (fst ?X, snd ?X)"
    using halts_triggerActions[of w tr parse uid rules d ep secret] by simp
  from halts_failed_call_last[OF this] h show "q = []" "fst ?X = Inl e" by blast+
next
  let ?Y = "getEnabledRules w uid ep secret tr"
  assume h: "snd ?Y = p' @ Called c' # q' \<and> length tr \<le> length p' \<and> rejects w p' c' = Some e'"
  have "haltsAtFailure w tr (fst ?Y, snd ?Y)"
    using halts_getEnabledRules[of w tr uid ep secret] by simp
  from halts_failed_call_last[OF this] h show "q' = []" "fst ?Y = Inl e'" by blast+
qed

theorem remote_failure_propagates_witness:
  "drop 3 (snd (triggerActions outageWorld plainParse ''u1''
     [sampleRule [] [sampleAction SendNotification [''hello''], sampleAction Archive [],
                     sampleAction SendNotification [''late'']]]
     (sampleEvent (Some ''p1'') None) ''http://api'' ''secret'' [])) = [] \<and>
   fst (triggerActions outageWorld plainParse ''u1''
     [sampleRule [] [sampleAction SendNotification [''hello''], sampleAction Archive [],
                     sampleAction SendNotification [''late'']]]
     (sampleEvent (Some ''p1'') None) ''http://api'' ''secret'' []) =
     Inl (Rejected ''archive down'') \<and>
   drop 2 (snd (getEnabledRules outageWorld ''u1'' ''http://api'' ''secret'' [])) = [] \<and>
   fst (getEnabledRules outageWorld ''u1'' ''http://api'' ''secret'' []) =
     Inl (Rejected ''store down'')"
proof -
  let ?X = "triggerActions outageWorld plainParse ''u1''
     [sampleRule [] [sampleAction SendNotification [''hello''], sampleAction Archive [],
                     sampleAction SendNotification [''late'']]]
     (sampleEvent (Some ''p1'') None) ''http://api'' ''secret'' []"
  let ?Y = "getEnabledRules outageWorld ''u1'' ''http://api'' ''secret'' []"
  let ?p = "[Called (Call_getAuthToken ''u1'' ''secret''),
             Called (Call_sendNotification ''http://api'' ''t'' ''hello'')]"
  let ?c = "Call_archivePage ''http://api'' ''t'' ''p1''"
  let ?pa = "[Called (Call_getAuthToken ''u1'' ''secret'')]"
  let ?ca = "Call_axiosPost ''http://api/graphql'' ''auth=t;''"
  have x: "take 3 (snd ?X) = ?p @ [Called ?c]" by code_simp
  have y: "take 2 (snd ?Y) = ?pa @ [Called ?ca]" by code_simp
  have 1: "snd ?X = ?p @ Called ?c # drop 3 (snd ?X)"
    using append_take_drop_id[of 3 "snd ?X"] unfolding x by simp
  have 2: "rejects outageWorld ?p ?c = Some (Rejected ''archive down'')" by code_simp
  have 3: "snd ?Y = ?pa @ Called ?ca # drop 2 (snd ?Y)"
    using append_take_drop_id[of 2 "snd ?Y"] unfolding y by simp
  have 4: "rejects outageWorld ?pa ?ca = Some (Rejected ''store down'')" by code_simp
  have l: "length ([]::effect list) \<le> length ?p" by simp
  have l0: "length ([]::effect list) \<le> length ?pa" by simp
  note T = remote_failure_propagates[where w = outageWorld and tr = "[]"
      and p = ?p and c = ?c and p' = ?pa and c' = ?ca]
  from T[THEN conjunct1, THEN mp, OF conjI[OF 1 conjI[OF l 2]]]
       T[THEN conjunct2, THEN mp, OF conjI[OF 3 conjI[OF l0 4]]]
  show ?thesis by blast
qed

lemma dispatch_skip_addLabel:
  "type a = AddLabel \<Longrightarrow> \<not> truthy (id_data d) \<or> params a = [] \<Longrightarrow>
   dispatch w ep tok d a tr = (Inr (), tr @ [ConsoleLog ''invalid data for add label action''])"
  by (cases "id_data d") (auto simp: dispatch_def consoleLog_def)

lemma dispatch_skip_archive:
  "type a = Archive \<Longrightarrow> \<not> truthy (id_data d) \<Longrightarrow>
   dispatch w ep tok d a tr = (Inr (), tr @ [ConsoleLog ''invalid data for archive action''])"
  by (cases "id_data d") (auto simp: dispatch_def consoleLog_def)

lemma dispatch_skip_markAsRead:
  "type a = MarkAsRead \<Longrightarrow> \<not> truthy (id_data d) \<Longrightarrow>
   dispatch w ep tok d a tr = (Inr (), tr @ [ConsoleLog ''invalid data for mark as read action''])"
  by (cases "id_data d") (auto simp: dispatch_def consoleLog_def)

subsection \<open>Preconditions of the actions\<close>

text \<open>
  Claim C6, as the code has it. An add-label, archive or mark-as-read action whose precondition fails (the
  id of the event is absent or empty, or an add-label action has no label) writes its
  diagnostic line, calls nothing, and the run goes on with the next action. With a
  non-empty id (and at least one label) the action makes exactly one call, with the id of
  the event (and the labels). In every run, each of these calls carries the non-empty id
  of the event, and each label call carries at least one label.
\<close>

theorem precondition_skip_or_single_call:
  "(type a = AddLabel \<and> (\<not> truthy (id_data d) \<or> params a = []) \<longrightarrow>
      runActions w ep tok d (a # rest) tr =
      runActions w ep tok d rest (tr @ [ConsoleLog ''invalid data for add label action''])) \<and>
   (type a = Archive \<and> \<not> truthy (id_data d) \<longrightarrow>
      runActions w ep tok d (a # rest) tr =
      runActions w ep tok d rest (tr @ [ConsoleLog ''invalid data for archive action''])) \<and>
   (type a = MarkAsRead \<and> \<not> truthy (id_data d) \<longrightarrow>
      runActions w ep tok d (a # rest) tr =
      runActions w ep tok d rest (tr @ [ConsoleLog ''invalid data for mark as read action''])) \<and>
   (id_data d = Some i \<and> i \<noteq> [] \<longrightarrow>
      (type a = AddLabel \<and> params a \<noteq> [] \<longrightarrow>
         snd (dispatch w ep tok d a tr) = tr @ [Called (Call_addLabels ep tok i (params a))]) \<and>
      (type a = Archive \<longrightarrow>
         snd (dispatch w ep tok d a tr) = tr @ [Called (Call_archivePage ep tok i)]) \<and>
      (type a = MarkAsRead \<longrightarrow>
         snd (dispatch w ep tok d a tr) = tr @ [Called (Call_markPageAsRead ep tok i)])) \<and>
   list_all (goodEffect d) (snd (triggerActions w parse uid rules d ep secret []))"
proof (intro conjI impI)
  assume "type a = AddLabel \<and> (\<not> truthy (id_data d) \<or> params a = [])"
  then show "runActions w ep tok d (a # rest) tr =
      runActions w ep tok d rest (tr @ [ConsoleLog ''invalid data for add label action''])"
    by (simp add: dispatch_skip_addLabel)
next
  assume "type a = Archive \<and> \<not> truthy (id_data d)"
  then show "runActions w ep tok d (a # rest) tr =
      runActions w ep tok d rest (tr @ [ConsoleLog ''invalid data for archive action''])"
    by (simp add: dispatch_skip_archive)
next
  assume "type a = MarkAsRead \<and> \<not> truthy (id_data d)"
  then show "runActions w ep tok d (a # rest) tr =
      runActions w ep tok d rest (tr @ [ConsoleLog ''invalid data for mark as read action''])"
    by (simp add: dispatch_skip_markAsRead)
next
  assume "id_data d = Some i \<and> i \<noteq> []" and "type a = AddLabel \<and> params a \<noteq> []"
  then show "snd (dispatch w ep tok d a tr) = tr @ [Called (Call_addLabels ep tok i (params a))]"
    by (simp add: dispatch_def snd_perform)
next
  assume "id_data d = Some i \<and> i \<noteq> []" and "type a = Archive"
  then show "snd (dispatch w ep tok d a tr) = tr @ [Called (Call_archivePage ep tok i)]"
    by (simp add: dispatch_def snd_perform)
next
  assume "id_data d = Some i \<and> i \<noteq> []" and "type a = MarkAsRead"
  then show "snd (dispatch w ep tok d a tr) = tr @ [Called (Call_markPageAsRead ep tok i)]"
    by (simp add: dispatch_def snd_perform)
next
  show "list_all (goodEffect d) (snd (triggerActions w parse uid rules d ep secret []))"
    by (rule good_triggerActions) simp
qed

theorem precondition_skip_or_single_call_witness:
  "runActions calmWorld ''http://api'' ''t'' (sampleEvent (Some ''p1'') None)
     [sampleAction AddLabel [], sampleAction Archive []] [] =
     (Inr (), [ConsoleLog ''invalid data for add label action'',
               Called (Call_archivePage ''http://api'' ''t'' ''p1'')]) \<and>
   runActions calmWorld ''http://api'' ''t'' (sampleEvent None None)
     [sampleAction Archive []] [] =
     (Inr (), [ConsoleLog ''invalid data for archive action'']) \<and>
   runActions calmWorld ''http://api'' ''t'' (sampleEvent None None)
     [sampleAction MarkAsRead []] [] =
     (Inr (), [ConsoleLog ''invalid data for mark as read action'']) \<and>
   snd (dispatch calmWorld ''http://api'' ''t'' (sampleEvent (Some ''p1'') None)
     (sampleAction AddLabel [''x'']) []) =
     [Called (Call_addLabels ''http://api'' ''t'' ''p1'' [''x''])] \<and>
   snd (dispatch calmWorld ''http://api'' ''t'' (sampleEvent (Some ''p1'') None)
     (sampleAction Archive []) []) =
     [Called (Call_archivePage ''http://api'' ''t'' ''p1'')] \<and>
   snd (dispatch calmWorld ''http://api'' ''t'' (sampleEvent (Some ''p1'') None)
     (sampleAction MarkAsRead []) []) =
     [Called (Call_markPageAsRead ''http://api'' ''t'' ''p1'')]"
proof -
  let ?d = "sampleEvent (Some ''p1'') None"
  let ?n = "sampleEvent None None"
  have i: "id_data ?d = Some ''p1'' \<and> ''p1'' \<noteq> []" by (simp add: sampleEvent_def)
  have h1: "type (sampleAction AddLabel []) = AddLabel \<and>
            (\<not> truthy (id_data ?d) \<or> params (sampleAction AddLabel []) = [])"
    by (simp add: sampleAction_def)
  have h2: "type (sampleAction Archive []) = Archive \<and> \<not> truthy (id_data ?n)"
    by (simp add: sampleAction_def sampleEvent_def)
  have h3: "type (sampleAction MarkAsRead []) = MarkAsRead \<and> \<not> truthy (id_data ?n)"
    by (simp add: sampleAction_def sampleEvent_def)
  have h4: "type (sampleAction AddLabel [''x'']) = AddLabel \<and>
            params (sampleAction AddLabel [''x'']) \<noteq> []"
    by (simp add: sampleAction_def)
  have h5: "type (sampleAction Archive []) = Archive" by (simp add: sampleAction_def)
  have h6: "type (sampleAction MarkAsRead []) = MarkAsRead" by (simp add: sampleAction_def)
  have r1: "runActions calmWorld ''http://api'' ''t'' ?d [sampleAction Archive []]
              ([] @ [ConsoleLog ''invalid data for add label action'']) =
            (Inr (), [ConsoleLog ''invalid data for add label action'',
                      Called (Call_archivePage ''http://api'' ''t'' ''p1'')])"
    by code_simp
  note A = precondition_skip_or_single_call[where w = calmWorld and ep = "''http://api''"
      and tok = "''t''" and tr = "[]" and d = ?d and i = "''p1''"]
  note B = precondition_skip_or_single_call[where w = calmWorld and ep = "''http://api''"
      and tok = "''t''" and tr = "[]" and d = ?n and rest = "[]"]
  have c1: "runActions calmWorld ''http://api'' ''t'' ?d
              [sampleAction AddLabel [], sampleAction Archive []] [] =
            (Inr (), [ConsoleLog ''invalid data for add label action'',
                      Called (Call_archivePage ''http://api'' ''t'' ''p1'')])"
    using A[where a = "sampleAction AddLabel []" and rest = "[sampleAction Archive []]",
            THEN conjunct1, THEN mp, OF h1] r1 by simp
  have c2: "runActions calmWorld ''http://api'' ''t'' ?n [sampleAction Archive []] [] =
            (Inr (), [ConsoleLog ''invalid data for archive action''])"
    using B[where a = "sampleAction Archive []",
            THEN conjunct2, THEN conjunct1, THEN mp, OF h2] by simp
  have c3: "runActions calmWorld ''http://api'' ''t'' ?n [sampleAction MarkAsRead []] [] =
            (Inr (), [ConsoleLog ''invalid data for mark as read action''])"
    using B[where a = "sampleAction MarkAsRead []",
            THEN conjunct2, THEN conjunct2, THEN conjunct1, THEN mp, OF h3] by simp
  have c4: "snd (dispatch calmWorld ''http://api'' ''t'' ?d (sampleAction AddLabel [''x'']) []) =
            [Called (Call_addLabels ''http://api'' ''t'' ''p1'' [''x''])]"
    using A[where a = "sampleAction AddLabel [''x'']",
            THEN conjunct2, THEN conjunct2, THEN conjunct2, THEN conjunct1, THEN mp, OF i,
            THEN conjunct1, THEN mp, OF h4]
    by (simp add: sampleAction_def)
  have c5: "snd (dispatch calmWorld ''http://api'' ''t'' ?d (sampleAction Archive []) []) =
            [Called (Call_archivePage ''http://api'' ''t'' ''p1'')]"
    using A[where a = "sampleAction Archive []",
            THEN conjunct2, THEN conjunct2, THEN conjunct2, THEN conjunct1, THEN mp, OF i,
            THEN conjunct2, THEN conjunct1, THEN mp, OF h5]
    by simp
  have c6: "snd (dispatch calmWorld ''http://api'' ''t'' ?d (sampleAction MarkAsRead []) []) =
            [Called (Call_markPageAsRead ''http://api'' ''t'' ''p1'')]"
    using A[where a = "sampleAction MarkAsRead []",
            THEN conjunct2, THEN conjunct2, THEN conjunct2, THEN conjunct1, THEN mp, OF i,
            THEN conjunct2, THEN conjunct2, THEN mp, OF h6]
    by simp
  from c1 c2 c3 c4 c5 c6 show ?thesis by (intro conjI)
qed

text \<open>
  The claim as stated fails where the id of the event is present and empty: the three
  actions are skipped with their diagnostic lines, and no call is made for them.
\<close>

theorem empty_id_skips_counterexample:
  "id_data (sampleEvent (Some []) None) \<noteq> None \<and>
   triggerActions calmWorld plainParse ''u1''
     [sampleRule ''*'' [sampleAction AddLabel [''x''], sampleAction Archive [],
                        sampleAction MarkAsRead []]]
     (sampleEvent (Some []) None) ''http://api'' ''secret'' [] =
   (Inr (),
    [Called (Call_getAuthToken ''u1'' ''secret''),
     ConsoleLog ''invalid data for add label action'',
     ConsoleLog ''invalid data for archive action'',
     ConsoleLog ''invalid data for mark as read action''])"
  by code_simp

subsection \<open>Notifications and the order of dispatch\<close>




subsection \<open>One token for each matching rule\<close>

text \<open>
  Claim C8, as the code has it. A run that ends without error has fetched as many
  tokens as there are matching rules, and no run fetches more: every run has fetched one
  token for each matching rule of an initial part of the list of rules, which is the
  whole list when the run ends without error. A rule that does not match leaves no trace
  at all: the run is the run without that rule. For a matching rule the token is fetched
  first, and the actions of the rule are dispatched after it, with the token that was
  issued.
\<close>

theorem one_token_per_matched_rule:
  "(fst (triggerActions w parse uid rules d ep secret tr) = Inr () \<longrightarrow>
      length (filter isTokenCall (snd (triggerActions w parse uid rules d ep secret tr))) =
        length (filter isTokenCall tr) +
        length (filter (\<lambda>r. isValidData parse (filter_rule r) d) rules)) \<and>
   (\<not> isValidData parse (filter_rule r) d \<longrightarrow>
      triggerActions w parse uid (pre @ r # post) d ep secret tr =
      triggerActions w parse uid (pre @ post) d ep secret tr) \<and>
   (isValidData parse (filter_rule r) d \<and> rejects w tr (Call_getAuthToken uid secret) = None \<longrightarrow>
      triggerActions w parse uid (r # post) d ep secret tr =
        (case runActions w ep (tokenFor w tr uid secret) d (actions r)
                (tr @ [Called (Call_getAuthToken uid secret)]) of
           (Inl e, tr') \<Rightarrow> (Inl e, tr')
         | (Inr u, tr') \<Rightarrow> triggerActions w parse uid post d ep secret tr')) \<and>
   length (filter isTokenCall (snd (triggerActions w parse uid rules d ep secret tr))) \<le>
     length (filter isTokenCall tr) +
     length (filter (\<lambda>r. isValidData parse (filter_rule r) d) rules) \<and>
   (\<exists>reached rest. rules = reached @ rest \<and>
      length (filter isTokenCall (snd (triggerActions w parse uid rules d ep secret tr))) =
        length (filter isTokenCall tr) +
        length (filter (\<lambda>r. isValidData parse (filter_rule r) d) reached) \<and>
      (fst (triggerActions w parse uid rules d ep secret tr) = Inr () \<longrightarrow> rest = []))"
proof (intro conjI impI)
  assume "fst (triggerActions w parse uid rules d ep secret tr) = Inr ()"
  then show "length (filter isTokenCall (snd (triggerActions w parse uid rules d ep secret tr))) =
        length (filter isTokenCall tr) +
        length (filter (\<lambda>r. isValidData parse (filter_rule r) d) rules)"
    by (rule tokens_triggerActions)
next
  assume "\<not> isValidData parse (filter_rule r) d"
  then show "triggerActions w parse uid (pre @ r # post) d ep secret tr =
      triggerActions w parse uid (pre @ post) d ep secret tr"
    by (rule skip_unmatched)
next
  assume "isValidData parse (filter_rule r) d \<and> rejects w tr (Call_getAuthToken uid secret) = None"
  then show "triggerActions w parse uid (r # post) d ep secret tr =
        (case runActions w ep (tokenFor w tr uid secret) d (actions r)
                (tr @ [Called (Call_getAuthToken uid secret)]) of
           (Inl e, tr') \<Rightarrow> (Inl e, tr')
         | (Inr u, tr') \<Rightarrow> triggerActions w parse uid post d ep secret tr')"
    by (simp add: getAuthToken_cases)
next
  show "length (filter isTokenCall (snd (triggerActions w parse uid rules d ep secret tr))) \<le>
     length (filter isTokenCall tr) +
     length (filter (\<lambda>r. isValidData parse (filter_rule r) d) rules)"
    by (rule tokens_triggerActions_le)
next
  show "\<exists>reached rest. rules = reached @ rest \<and>
      length (filter isTokenCall (snd (triggerActions w parse uid rules d ep secret tr))) =
        length (filter isTokenCall tr) +
        length (filter (\<lambda>r. isValidData parse (filter_rule r) d) reached) \<and>
      (fst (triggerActions w parse uid rules d ep secret tr) = Inr () \<longrightarrow> rest = [])"
    by (rule tokens_reached)
qed

theorem one_token_per_matched_rule_witness:
  "length (filter isTokenCall (snd (triggerActions calmWorld plainParse ''u1''
     [sampleRule ''*'' [sampleAction MarkAsRead []],
      sampleRule ''subscription:promo'' [sampleAction Archive []],
      sampleRule '' '' [sampleAction SendNotification [''hi'']]]
     (sampleEvent (Some ''p1'') (Some ''other'')) ''http://api'' ''secret'' []))) = 2 \<and>
   triggerActions calmWorld plainParse ''u1''
     [sampleRule ''*'' [sampleAction MarkAsRead []],
      sampleRule ''subscription:promo'' [sampleAction Archive []],
      sampleRule '' '' [sampleAction SendNotification [''hi'']]]
     (sampleEvent (Some ''p1'') (Some ''other'')) ''http://api'' ''secret'' [] =
   triggerActions calmWorld plainParse ''u1''
     [sampleRule ''*'' [sampleAction MarkAsRead []],
      sampleRule '' '' [sampleAction SendNotification [''hi'']]]
     (sampleEvent (Some ''p1'') (Some ''other'')) ''http://api'' ''secret'' [] \<and>
   triggerActions calmWorld plainParse ''u1''
     [sampleRule ''*'' [sampleAction MarkAsRead []]]
     (sampleEvent (Some ''p1'') (Some ''other'')) ''http://api'' ''secret'' [] =
   (Inr (), [Called (Call_getAuthToken ''u1'' ''secret''),
             Called (Call_markPageAsRead ''http://api'' ''t'' ''p1'')])"
proof -
  let ?d = "sampleEvent (Some ''p1'') (Some ''other'')"
  let ?ra = "sampleRule ''*'' [sampleAction MarkAsRead []]"
  let ?rb = "sampleRule ''subscription:promo'' [sampleAction Archive []]"
  let ?rc = "sampleRule '' '' [sampleAction SendNotification [''hi'']]"
  let ?X = "triggerActions calmWorld plainParse ''u1'' [?ra, ?rb, ?rc] ?d
              ''http://api'' ''secret'' []"
  note T = one_token_per_matched_rule[where w = calmWorld and parse = plainParse
      and uid = "''u1''" and d = ?d and ep = "''http://api''" and secret = "''secret''"
      and tr = "[]"]
  have h1: "fst ?X = Inr ()" by code_simp
  have m: "length (filter isTokenCall []) +
           length (filter (\<lambda>r. isValidData plainParse (filter_rule r) ?d) [?ra, ?rb, ?rc]) = 2"
    by code_simp
  have c1: "length (filter isTokenCall (snd ?X)) = 2"
    using T[where rules = "[?ra, ?rb, ?rc]", THEN conjunct1, THEN mp, OF h1]
    unfolding m .
  have h2: "\<not> isValidData plainParse (filter_rule ?rb) ?d" by code_simp
  have c2: "?X = triggerActions calmWorld plainParse ''u1'' [?ra, ?rc] ?d
                   ''http://api'' ''secret'' []"
    using T[where r = ?rb and pre = "[?ra]" and post = "[?rc]",
            THEN conjunct2, THEN conjunct1, THEN mp, OF h2]
    by (simp only: append_Cons append_Nil)
  have h3: "isValidData plainParse (filter_rule ?ra) ?d \<and>
            rejects calmWorld [] (Call_getAuthToken ''u1'' ''secret'') = None"
    by code_simp
  have r: "(case runActions calmWorld ''http://api'' (tokenFor calmWorld [] ''u1'' ''secret'') ?d
                  (actions ?ra) ([] @ [Called (Call_getAuthToken ''u1'' ''secret'')]) of
             (Inl e, tr') \<Rightarrow> (Inl e, tr')
           | (Inr u, tr') \<Rightarrow> triggerActions calmWorld plainParse ''u1'' [] ?d
                                ''http://api'' ''secret'' tr') =
           (Inr (), [Called (Call_getAuthToken ''u1'' ''secret''),
                     Called (Call_markPageAsRead ''http://api'' ''t'' ''p1'')])"
    by code_simp
  have c3: "triggerActions calmWorld plainParse ''u1'' [?ra] ?d ''http://api'' ''secret'' [] =
            (Inr (), [Called (Call_getAuthToken ''u1'' ''secret''),
                      Called (Call_markPageAsRead ''http://api'' ''t'' ''p1'')])"
    using T[where r = ?ra and post = "[]",
            THEN conjunct2, THEN conjunct2, THEN conjunct1, THEN mp, OF h3]
    unfolding r .
  from c1 c2 c3 show ?thesis by (intro conjI)
qed

text \<open>
  The claim as stated fails for a run that a rejected call ends: both rules match, the
  archive call of the first one rejects, and a single token has been fetched.
\<close>

theorem aborted_run_tokens_counterexample:
  "length (filter (\<lambda>r. isValidData plainParse (filter_rule r) (sampleEvent (Some ''p1'') None))
     [sampleRule ''*'' [sampleAction MarkAsRead [], sampleAction Archive []],
      sampleRule [] [sampleAction SendNotification [''hi'']]]) = 2 \<and>
   length (filter isTokenCall (snd (triggerActions outageWorld plainParse ''u1''
     [sampleRule ''*'' [sampleAction MarkAsRead [], sampleAction Archive []],
      sampleRule [] [sampleAction SendNotification [''hi'']]]
     (sampleEvent (Some ''p1'') None) ''http://api'' ''secret'' []))) = 1 \<and>
   fst (triggerActions outageWorld plainParse ''u1''
     [sampleRule ''*'' [sampleAction MarkAsRead [], sampleAction Archive []],
      sampleRule [] [sampleAction SendNotification [''hi'']]]
     (sampleEvent (Some ''p1'') None) ''http://api'' ''secret'' []) =
     Inl (Rejected ''archive down'')"
  by code_simp

lemma getProp_nullish:
  "getProp v k = (if nullish v then Inl TypeError else Inr (propOf v k))"
  by (cases v) (simp_all add: propOf_def)

subsection \<open>The answer of the rule store\<close>

text \<open>
  Claim C9, as the code has it. When the token fetch and the query succeed,
  \<^verbatim>\<open>getEnabledRules\<close> fails with a type error exactly when the body, its \<^verbatim>\<open>data\<close> or its
  \<^verbatim>\<open>data.rules\<close> is undefined or null; otherwise it returns whatever \<^verbatim>\<open>data.rules.rules\<close>
  is. For an error-code response, where \<^verbatim>\<open>data.rules\<close> is an object without the member
  \<^verbatim>\<open>rules\<close>, it returns \<^verbatim>\<open>undefined\<close> and raises nothing.
\<close>

theorem getEnabledRules_result:
  assumes "rejects w tr (Call_getAuthToken uid secret) = None"
    and "rejects w (tr @ [Called (Call_getAuthToken uid secret)])
           (Call_axiosPost (ep @ ''/graphql'') (''auth='' @ tokenFor w tr uid secret @ '';'')) = None"
    and "responseData w (tr @ [Called (Call_getAuthToken uid secret)]) (ep @ ''/graphql'') = body"
  shows "fst (getEnabledRules w uid ep secret tr) =
           (if nullish body \<or> nullish (propOf body ''data'')
               \<or> nullish (propOf (propOf body ''data'') ''rules'')
            then Inl TypeError
            else Inr (propOf (propOf (propOf body ''data'') ''rules'') ''rules'')) \<and>
         (propOf (propOf body ''data'') ''rules'' = JObj kvs \<and> map_of kvs ''rules'' = None \<longrightarrow>
            fst (getEnabledRules w uid ep secret tr) = Inr JUndefined)"
proof -
  have n: "nullish body \<Longrightarrow> nullish (propOf body ''data'')"
    by (cases body) (simp_all add: propOf_def)
  have 1: "fst (getEnabledRules w uid ep secret tr) =
           (if nullish body \<or> nullish (propOf body ''data'')
               \<or> nullish (propOf (propOf body ''data'') ''rules'')
            then Inl TypeError
            else Inr (propOf (propOf (propOf body ''data'') ''rules'') ''rules''))"
    using assms n
    by (simp add: getEnabledRules_def getAuthToken_cases perform_def getProp_nullish)
  have 2: "propOf (propOf body ''data'') ''rules'' = JObj kvs \<and> map_of kvs ''rules'' = None \<longrightarrow>
            fst (getEnabledRules w uid ep secret tr) = Inr JUndefined"
  proof
    assume h: "propOf (propOf body ''data'') ''rules'' = JObj kvs \<and> map_of kvs ''rules'' = None"
    then have a: "\<not> nullish (propOf (propOf body ''data'') ''rules'')" by simp
    have b: "\<not> nullish (propOf body ''data'')"
    proof
      assume "nullish (propOf body ''data'')"
      then have "propOf (propOf body ''data'') ''rules'' = JUndefined"
        by (cases "propOf body ''data''") (simp_all add: propOf_def)
      with h show False by simp
    qed
    from b n have c: "\<not> nullish body" by blast
    from h have "propOf (propOf (propOf body ''data'') ''rules'') ''rules'' = JUndefined"
      by (simp add: propOf_def)
    with 1 a b c show "fst (getEnabledRules w uid ep secret tr) = Inr JUndefined" by simp
  qed
  from 1 2 show ?thesis by simp
qed

theorem getEnabledRules_result_witness:
  "fst (getEnabledRules nullDataWorld ''u1'' ''http://api'' ''secret'' []) = Inl TypeError \<and>
   fst (getEnabledRules successWorld ''u1'' ''http://api'' ''secret'' []) = Inr (JArr []) \<and>
   fst (getEnabledRules calmWorld ''u1'' ''http://api'' ''secret'' []) = Inr JUndefined"
proof -
  let ?tok = "Call_getAuthToken ''u1'' ''secret''"
  have n1: "rejects nullDataWorld [] ?tok = None" by (simp add: nullDataWorld_def)
  have n2: "rejects nullDataWorld ([] @ [Called ?tok])
           (Call_axiosPost (''http://api'' @ ''/graphql'')
              (''auth='' @ tokenFor nullDataWorld [] ''u1'' ''secret'' @ '';'')) = None"
    by (simp add: nullDataWorld_def)
  have n3: "responseData nullDataWorld ([] @ [Called ?tok]) (''http://api'' @ ''/graphql'') =
            JObj [(''data'', JNull)]"
    by (simp add: nullDataWorld_def)
  have s1: "rejects successWorld [] ?tok = None" by (simp add: successWorld_def)
  have s2: "rejects successWorld ([] @ [Called ?tok])
           (Call_axiosPost (''http://api'' @ ''/graphql'')
              (''auth='' @ tokenFor successWorld [] ''u1'' ''secret'' @ '';'')) = None"
    by (simp add: successWorld_def)
  have s3: "responseData successWorld ([] @ [Called ?tok]) (''http://api'' @ ''/graphql'') =
            JObj [(''data'', JObj [(''rules'', JObj [(''rules'', JArr [])])])]"
    by (simp add: successWorld_def)
  have c1: "rejects calmWorld [] ?tok = None" by (simp add: calmWorld_def)
  have c2: "rejects calmWorld ([] @ [Called ?tok])
           (Call_axiosPost (''http://api'' @ ''/graphql'')
              (''auth='' @ tokenFor calmWorld [] ''u1'' ''secret'' @ '';'')) = None"
    by (simp add: calmWorld_def)
  have c3: "responseData calmWorld ([] @ [Called ?tok]) (''http://api'' @ ''/graphql'') =
            errorCodeResponse"
    by (simp add: calmWorld_def)
  have k: "propOf (propOf errorCodeResponse ''data'') ''rules'' =
             JObj [(''errorCodes'', JArr [JStr ''UNAUTHORIZED''])] \<and>
           map_of [(''errorCodes'', JArr [JStr ''UNAUTHORIZED''])] ''rules'' = None"
    by (simp add: errorCodeResponse_def propOf_def)
  from getEnabledRules_result[OF n1 n2 n3]
  have a: "fst (getEnabledRules nullDataWorld ''u1'' ''http://api'' ''secret'' []) = Inl TypeError"
    by (simp add: propOf_def)
  from getEnabledRules_result[OF s1 s2 s3]
  have b: "fst (getEnabledRules successWorld ''u1'' ''http://api'' ''secret'' []) = Inr (JArr [])"
    by (simp add: propOf_def)
  from getEnabledRules_result[OF c1 c2 c3, of "[(''errorCodes'', JArr [JStr ''UNAUTHORIZED''])]"] k
  have c: "fst (getEnabledRules calmWorld ''u1'' ''http://api'' ''secret'' []) = Inr JUndefined"
    by blast
  from a b c show ?thesis by simp
qed

text \<open>
  The claim as stated fails: for an error-code response the function returns normally,
  with \<^verbatim>\<open>undefined\<close> in place of the list of rules.
\<close>

theorem getEnabledRules_error_codes_counterexample:
  "getEnabledRules calmWorld ''u1'' ''http://api'' ''secret'' [] =
   (Inr JUndefined,
    [Called (Call_getAuthToken ''u1'' ''secret''),
     Called (Call_axiosPost ''http://api/graphql'' ''auth=t;'')])"
  by code_simp

end
